theory Spec2Isabelle
  imports Main "HOL-Library.AList"
begin

section \<open>The keep-alive component cache (src/core/components/keep-alive.ts)\<close>

text \<open>
  A shallow embedding of the keep-alive component: the pattern matcher, the cache store
  with its recency order, key resolution, the render pass and the lifecycle hooks.
  Mutation of \<open>this\<close>, of the cache object and of the keys array is explicit state
  passing. The exception the source can raise (calling a method of \<open>undefined\<close>) is
  a value of type \<open>error\<close>; a function that can raise returns \<open>error + result\<close>,
  and what it had assigned before it raised is not part of the result.
  Component instances are external objects: the model holds a handle for each, and records
  every call of \<open>$destroy\<close> in a log, oldest call first.
\<close>

subsection \<open>Data\<close>

datatype error = TypeError

type_synonym inst = nat

text \<open>The type \<open>CacheEntry\<close>: all three fields are optional in the source.\<close>

record CacheEntry =
  name :: "string option"
  tag :: "string option"
  componentInstance :: "inst option"

text \<open>
  \<open>CacheEntryMap = Record<string, CacheEntry | null>\<close>, created by
  \<open>Object.create(null)\<close>: the list of own properties in creation order. A property
  holds \<open>Some e\<close> (an entry) or \<open>None\<close> (\<open>null\<close>).
\<close>

type_synonym CacheEntryMap = "(string \<times> CacheEntry option) list"

text \<open>
  The part of \<open>VNodeComponentOptions\<close> the component reads: \<open>Ctor.cid\<close>, the value of
  \<open>getComponentName(Ctor.options)\<close> (that function is imported, so its result is a
  field here) and \<open>tag\<close>.
\<close>

record VNodeComponentOptions =
  cid :: nat
  ctor_name :: "string option"
  opt_tag :: "string option"

text \<open>
  The parts of \<open>VNodeData\<close> and of \<open>VNode\<close> the component reads or writes. A key is
  a string, as the types of the cache and of the keys array have it. Three fields carry the
  prefix \<open>v\<close>, apart from the fields of \<open>CacheEntry\<close>.
\<close>

record VNodeData =
  keepAlive :: bool

record VNode =
  vkey :: "string option"
  vtag :: "string option"
  vcomponentInstance :: "inst option"
  componentOptions :: "VNodeComponentOptions option"
  data :: "VNodeData option"

text \<open>
  A value of the props \<open>include\<close> and \<open>exclude\<close>. A regular expression is the
  predicate its \<open>test\<close> method computes (one without the flags \<open>g\<close> and \<open>y\<close>,
  so that \<open>test\<close> keeps no position). \<open>POther b\<close> is any value that is
  neither an array, a string nor a regular expression (\<open>undefined\<close> among them);
  \<open>b\<close> is its truthiness.
\<close>

datatype pattern =
    PArray "string list"
  | PString string
  | PRegExp "string \<Rightarrow> bool"
  | POther bool

text \<open>
  A value of the prop \<open>max\<close> (\<open>[String, Number]\<close>); \<open>None\<close> is \<open>undefined\<close>.
  \<open>MaxNumber\<close> covers the integral numbers below \<open>10^21\<close> in magnitude, whose
  string form is their decimal numeral.
\<close>

datatype max_value = MaxNumber int | MaxString string

text \<open>
  The fields of the component instance: \<open>cur_vnode\<close> is \<open>this._vnode\<close>,
  \<open>parent_children\<close> is \<open>this.$vnode.componentOptions.children\<close>,
  \<open>destroyed_log\<close> lists the instances \<open>$destroy\<close> was called on.
  \<open>keyToCache\<close> is read only while \<open>vnodeToCache\<close> is set, and \<open>render\<close>
  assigns the two together.
\<close>

record KeepAlive =
  cache :: CacheEntryMap
  keys :: "string list"
  vnodeToCache :: "VNode option"
  keyToCache :: string
  include_prop :: pattern
  exclude_prop :: pattern
  max_prop :: "max_value option"
  cur_vnode :: "VNode option"
  parent_children :: "VNode list option"
  destroyed_log :: "inst list"

subsection \<open>JavaScript primitives the component uses\<close>

text \<open>Truthiness of a \<open>string | null | undefined\<close>: present and not empty.\<close>

definition truthy_str :: "string option \<Rightarrow> bool" where
  "truthy_str s = (case s of None \<Rightarrow> False | Some t \<Rightarrow> t \<noteq> [])"

definition truthy_pattern :: "pattern \<Rightarrow> bool" where
  "truthy_pattern p =
     (case p of PArray xs \<Rightarrow> True | PString s \<Rightarrow> s \<noteq> [] | PRegExp r \<Rightarrow> True
      | POther b \<Rightarrow> b)"

definition truthy_max :: "max_value option \<Rightarrow> bool" where
  "truthy_max m =
     (case m of None \<Rightarrow> False | Some (MaxNumber n) \<Rightarrow> n \<noteq> 0
      | Some (MaxString s) \<Rightarrow> s \<noteq> [])"

text \<open>\<open>Array.prototype.indexOf\<close>: the first position of the item, \<open>-1\<close> when absent.\<close>

fun indexOf :: "'a list \<Rightarrow> 'a \<Rightarrow> int" where
  "indexOf [] x = - 1"
| "indexOf (y # ys) x =
     (if y = x then 0 else (let i = indexOf ys x in if i = - 1 then - 1 else i + 1))"

text \<open>\<open>String.prototype.split(',')\<close>: the empty string gives one empty segment.\<close>

fun js_split :: "string \<Rightarrow> string list" where
  "js_split [] = [[]]"
| "js_split (c # cs) =
     (if c = CHR '','' then [] # js_split cs
      else (case js_split cs of [] \<Rightarrow> [[c]] | w # ws \<Rightarrow> (c # w) # ws))"

text \<open>
  \<open>parseInt\<close> with no radix: leading white space, a sign, the prefix \<open>0x\<close>, then the
  longest prefix of digits; \<open>None\<close> is \<open>NaN\<close>. A character of the model is a code
  unit below 256; the white space among these is the ASCII one and the no-break space
  \<open>U+00A0\<close>.
  A numeral too long for a double is rounded by the source; the comparison with an array
  length gives the same answer on the exact value.
\<close>

definition is_space :: "char \<Rightarrow> bool" where
  "is_space c = (of_char c \<in> {9, 10, 11, 12, 13, 32, 160 :: nat})"

definition dec_digit :: "char \<Rightarrow> nat option" where
  "dec_digit c =
     (let n = (of_char c :: nat) in if 48 \<le> n \<and> n \<le> 57 then Some (n - 48) else None)"

definition hex_digit :: "char \<Rightarrow> nat option" where
  "hex_digit c =
     (let n = (of_char c :: nat) in
      if 48 \<le> n \<and> n \<le> 57 then Some (n - 48)
      else if 65 \<le> n \<and> n \<le> 70 then Some (n - 55)
      else if 97 \<le> n \<and> n \<le> 102 then Some (n - 87)
      else None)"

fun digits_prefix :: "(char \<Rightarrow> nat option) \<Rightarrow> string \<Rightarrow> nat list" where
  "digits_prefix d [] = []"
| "digits_prefix d (c # cs) = (case d c of None \<Rightarrow> [] | Some n \<Rightarrow> n # digits_prefix d cs)"

definition digits_value :: "int \<Rightarrow> nat list \<Rightarrow> int" where
  "digits_value r ds = foldl (\<lambda>a n. r * a + int n) 0 ds"

definition parseInt :: "string \<Rightarrow> int option" where
  "parseInt str =
     (let s = dropWhile is_space str;
          neg = (case s of [] \<Rightarrow> False | c # _ \<Rightarrow> c = CHR ''-'');
          s1 = (case s of [] \<Rightarrow> [] | c # cs \<Rightarrow> if c = CHR ''+'' \<or> c = CHR ''-'' then cs else s);
          hex = (take 2 s1 = ''0x'' \<or> take 2 s1 = ''0X'');
          z = (if hex then digits_prefix hex_digit (drop 2 s1) else digits_prefix dec_digit s1);
          v = digits_value (if hex then 16 else 10) z
      in if z = [] then None else Some (if neg then - v else v))"

definition parseInt_max :: "max_value option \<Rightarrow> int option" where
  "parseInt_max m =
     (case m of None \<Rightarrow> None | Some (MaxNumber n) \<Rightarrow> Some n
      | Some (MaxString s) \<Rightarrow> parseInt s)"

text \<open>
  String concatenation with the number \<open>cid\<close>: its decimal numeral, for a \<open>cid\<close>
  below \<open>10^21\<close> (from there on the string form of a number has an exponent).
\<close>

fun string_of_nat :: "nat \<Rightarrow> string" where
  "string_of_nat n =
     (if n < 10 then [char_of (48 + n)]
      else string_of_nat (n div 10) @ [char_of (48 + n mod 10)])"

declare string_of_nat.simps [simp del]

text \<open>
  The order in which \<open>for (const key in cache)\<close> visits the own properties of an
  object without prototype: the array indices in ascending numeric order, then the other
  names in creation order.
\<close>

definition index_value :: "string \<Rightarrow> int" where
  "index_value s = digits_value 10 (digits_prefix dec_digit s)"

definition isArrayIndex :: "string \<Rightarrow> bool" where
  "isArrayIndex s =
     (s \<noteq> [] \<and> list_all (\<lambda>c. dec_digit c \<noteq> None) s \<and> (s = ''0'' \<or> hd s \<noteq> CHR ''0'')
      \<and> index_value s < 4294967295)"

definition for_in_keys :: "CacheEntryMap \<Rightarrow> string list" where
  "for_in_keys c =
     sort_key index_value (filter isArrayIndex (map fst c))
     @ filter (\<lambda>k. \<not> isArrayIndex k) (map fst c)"

text \<open>\<open>cache[key]\<close> read as a condition: \<open>undefined\<close> and \<open>null\<close> are both falsy.\<close>

definition cache_get :: "CacheEntryMap \<Rightarrow> string \<Rightarrow> CacheEntry option" where
  "cache_get c k = (case map_of c k of None \<Rightarrow> None | Some v \<Rightarrow> v)"

text \<open>\<open>cache[key] = v\<close>: an existing property keeps its place, a new one goes last.\<close>

definition cache_set :: "CacheEntryMap \<Rightarrow> string \<Rightarrow> CacheEntry option \<Rightarrow> CacheEntryMap" where
  "cache_set c k v = AList.update k v c"

text \<open>
  Modelled from the spec: \<open>remove\<close> of \<open>shared/util\<close> is imported and not part of the
  source at hand. The spec has eviction and touch "remove the key from order", a no-op when the
  key is absent: one occurrence of the item is deleted.
\<close>

definition remove :: "string list \<Rightarrow> string \<Rightarrow> string list" where
  "remove arr item = remove1 item arr"

subsection \<open>The functions of keep-alive.ts\<close>

text \<open>The function \<open>_getComponentName\<close> of the source.\<close>

definition local_getComponentName :: "VNodeComponentOptions option \<Rightarrow> string option" where
  "local_getComponentName opts =
     (case opts of None \<Rightarrow> None
      | Some co \<Rightarrow> if truthy_str (ctor_name co) then ctor_name co else opt_tag co)"

fun matches :: "pattern \<Rightarrow> string \<Rightarrow> bool" where
  "matches (PArray xs) nm = (indexOf xs nm > - 1)"
| "matches (PString s) nm = (indexOf (js_split s) nm > - 1)"
| "matches (PRegExp r) nm = r nm"
| "matches (POther b) nm = False"

text \<open>
  \<open>pruneCacheEntry(cache, key, keys, current)\<close>, with the log of \<open>$destroy\<close> calls as
  a further argument. Calling \<open>$destroy\<close> on an absent instance raises, before the
  entry is set to \<open>null\<close>.
\<close>

definition pruneCacheEntry ::
  "CacheEntryMap \<Rightarrow> string \<Rightarrow> string list \<Rightarrow> VNode option \<Rightarrow> inst list
   \<Rightarrow> error + (CacheEntryMap \<times> string list \<times> inst list)" where
  "pruneCacheEntry c key ks current ds =
     (case cache_get c key of
        None \<Rightarrow> Inr (cache_set c key None, remove ks key, ds)
      | Some entry \<Rightarrow>
          if (case current of None \<Rightarrow> True | Some cur \<Rightarrow> tag entry \<noteq> vtag cur)
          then (case componentInstance entry of
                  None \<Rightarrow> Inl TypeError
                | Some i \<Rightarrow> Inr (cache_set c key None, remove ks key, ds @ [i]))
          else Inr (cache_set c key None, remove ks key, ds))"

text \<open>
  \<open>pruneCache\<close>: the body of its loop, the loop over the visited names, and the
  function, which ends with \<open>$vnode.componentOptions!.children = undefined\<close> (the
  placeholder node of a mounted component has its options).
\<close>

definition pruneCache_step ::
  "VNode option \<Rightarrow> (string \<Rightarrow> bool) \<Rightarrow> string
   \<Rightarrow> CacheEntryMap \<times> string list \<times> inst list
   \<Rightarrow> error + (CacheEntryMap \<times> string list \<times> inst list)" where
  "pruneCache_step current flt key st =
     (case st of (c, ks, ds) \<Rightarrow>
        (case cache_get c key of
           None \<Rightarrow> Inr st
         | Some entry \<Rightarrow>
             (case name entry of
                None \<Rightarrow> Inr st
              | Some nm \<Rightarrow>
                  if nm \<noteq> [] \<and> \<not> flt nm then pruneCacheEntry c key ks current ds
                  else Inr st)))"

fun pruneCache_loop ::
  "VNode option \<Rightarrow> (string \<Rightarrow> bool) \<Rightarrow> string list
   \<Rightarrow> CacheEntryMap \<times> string list \<times> inst list
   \<Rightarrow> error + (CacheEntryMap \<times> string list \<times> inst list)" where
  "pruneCache_loop current flt [] st = Inr st"
| "pruneCache_loop current flt (key # rest) st =
     (case pruneCache_step current flt key st of
        Inl e \<Rightarrow> Inl e
      | Inr st' \<Rightarrow> pruneCache_loop current flt rest st')"

definition pruneCache :: "KeepAlive \<Rightarrow> (string \<Rightarrow> bool) \<Rightarrow> error + KeepAlive" where
  "pruneCache s flt =
     (case pruneCache_loop (cur_vnode s) flt (for_in_keys (cache s))
             (cache s, keys s, destroyed_log s) of
        Inl e \<Rightarrow> Inl e
      | Inr (c, ks, ds) \<Rightarrow>
          Inr (s\<lparr>cache := c, keys := ks, destroyed_log := ds, parent_children := None\<rparr>))"

text \<open>The condition \<open>this.max && keys.length > parseInt(this.max)\<close>.\<close>

definition over_max :: "max_value option \<Rightarrow> string list \<Rightarrow> bool" where
  "over_max m ks =
     (truthy_max m \<and> (case parseInt_max m of None \<Rightarrow> False | Some n \<Rightarrow> int (length ks) > n))"

definition cacheVNode :: "KeepAlive \<Rightarrow> error + KeepAlive" where
  "cacheVNode s =
     (case vnodeToCache s of
        None \<Rightarrow> Inr s
      | Some v \<Rightarrow>
          (let c1 = cache_set (cache s) (keyToCache s)
                      (Some \<lparr>name = local_getComponentName (componentOptions v), tag = vtag v,
                             componentInstance = vcomponentInstance v\<rparr>);
               ks1 = keys s @ [keyToCache s]
           in if over_max (max_prop s) ks1
              then (case pruneCacheEntry c1 (hd ks1) ks1 (cur_vnode s) (destroyed_log s) of
                      Inl e \<Rightarrow> Inl e
                    | Inr (c2, ks2, ds2) \<Rightarrow>
                        Inr (s\<lparr>cache := c2, keys := ks2, destroyed_log := ds2,
                               vnodeToCache := None\<rparr>))
              else Inr (s\<lparr>cache := c1, keys := ks1, vnodeToCache := None\<rparr>)))"

text \<open>
  \<open>created\<close> makes the empty cache and the empty keys array; the props and the other
  fields of the instance are its argument.
\<close>

definition created :: "KeepAlive \<Rightarrow> KeepAlive" where
  "created s = s\<lparr>cache := [], keys := []\<rparr>"

fun destroyed_loop ::
  "string list \<Rightarrow> CacheEntryMap \<times> string list \<times> inst list
   \<Rightarrow> error + (CacheEntryMap \<times> string list \<times> inst list)" where
  "destroyed_loop [] st = Inr st"
| "destroyed_loop (key # rest) st =
     (case st of (c, ks, ds) \<Rightarrow>
        (case pruneCacheEntry c key ks None ds of
           Inl e \<Rightarrow> Inl e
         | Inr st' \<Rightarrow> destroyed_loop rest st'))"

definition destroyed :: "KeepAlive \<Rightarrow> error + KeepAlive" where
  "destroyed s =
     (case destroyed_loop (for_in_keys (cache s)) (cache s, keys s, destroyed_log s) of
        Inl e \<Rightarrow> Inl e
      | Inr (c, ks, ds) \<Rightarrow> Inr (s\<lparr>cache := c, keys := ks, destroyed_log := ds\<rparr>))"

text \<open>The two watchers that \<open>mounted\<close> registers, and the hooks that commit.\<close>

definition watch_include :: "KeepAlive \<Rightarrow> pattern \<Rightarrow> error + KeepAlive" where
  "watch_include s val = pruneCache s (\<lambda>nm. matches val nm)"

definition watch_exclude :: "KeepAlive \<Rightarrow> pattern \<Rightarrow> error + KeepAlive" where
  "watch_exclude s val = pruneCache s (\<lambda>nm. \<not> matches val nm)"

definition mounted :: "KeepAlive \<Rightarrow> error + KeepAlive" where
  "mounted s = cacheVNode s"


text \<open>
  The filter test of \<open>render\<close>, with the short-circuit evaluation of the source:
  \<open>matches\<close> is reached only with a truthy name.
\<close>

definition not_cached :: "pattern \<Rightarrow> pattern \<Rightarrow> string option \<Rightarrow> bool" where
  "not_cached incl excl nm =
     ((truthy_pattern incl \<and>
        (case nm of None \<Rightarrow> True | Some n \<Rightarrow> n = [] \<or> \<not> matches incl n))
      \<or> (truthy_pattern excl \<and>
           (case nm of None \<Rightarrow> False | Some n \<Rightarrow> n \<noteq> [] \<and> matches excl n)))"

text \<open>The key of a render node (lines 185 to 191).\<close>

definition resolve_key :: "VNode \<Rightarrow> VNodeComponentOptions \<Rightarrow> string" where
  "resolve_key v co =
     (case vkey v of
        None \<Rightarrow>
          string_of_nat (cid co)
          @ (case opt_tag co of None \<Rightarrow> []
             | Some t \<Rightarrow> if t \<noteq> [] then ''::'' @ t else [])
      | Some k \<Rightarrow> k)"

text \<open>
  The cached path of \<open>render\<close> (lines 184 to 204). The staged \<open>vnodeToCache\<close> is the
  render node itself, so the flag \<open>keepAlive\<close> set afterwards shows in it too; setting
  the flag on absent \<open>data\<close> raises.
\<close>

definition render_cached ::
  "KeepAlive \<Rightarrow> VNode \<Rightarrow> VNodeComponentOptions \<Rightarrow> error + (VNode option \<times> KeepAlive)" where
  "render_cached s v co =
     (let key = resolve_key v co in
      case cache_get (cache s) key of
        Some entry \<Rightarrow>
          (case data v of
             None \<Rightarrow> Inl TypeError
           | Some d \<Rightarrow>
               Inr (Some (v\<lparr>vcomponentInstance := componentInstance entry,
                            data := Some (d\<lparr>keepAlive := True\<rparr>)\<rparr>),
                    s\<lparr>keys := remove (keys s) key @ [key]\<rparr>))
      | None \<Rightarrow>
          (case data v of
             None \<Rightarrow> Inl TypeError
           | Some d \<Rightarrow>
               (let v' = v\<lparr>data := Some (d\<lparr>keepAlive := True\<rparr>)\<rparr>
                in Inr (Some v', s\<lparr>vnodeToCache := Some v', keyToCache := key\<rparr>))))"

text \<open>
  \<open>render\<close>: \<open>vnode\<close> is the value of \<open>getFirstComponentChild(slot)\<close> (an imported
  function) and \<open>slot0\<close> the value of \<open>slot && slot[0]\<close>.
\<close>

definition render ::
  "KeepAlive \<Rightarrow> VNode option \<Rightarrow> VNode option \<Rightarrow> error + (VNode option \<times> KeepAlive)" where
  "render s slot0 vnode =
     (case vnode of
        None \<Rightarrow> Inr (slot0, s)
      | Some v \<Rightarrow>
          (case componentOptions v of
             None \<Rightarrow> Inr (Some v, s)
           | Some co \<Rightarrow>
               if not_cached (include_prop s) (exclude_prop s) (local_getComponentName (Some co))
               then Inr (Some v, s)
               else render_cached s v co))"

subsection \<open>Notions of the specification\<close>

text \<open>
  The comma-separated segments of a string, in the words of the specification: the string
  is the segments joined by commas, and no segment holds a comma.
\<close>

fun join_comma :: "string list \<Rightarrow> string" where
  "join_comma [] = []"
| "join_comma [g] = g"
| "join_comma (g # h # rest) = g @ CHR '','' # join_comma (h # rest)"

definition comma_segment :: "string \<Rightarrow> string \<Rightarrow> bool" where
  "comma_segment s nm =
     (\<exists>segs. segs \<noteq> [] \<and> (\<forall>g \<in> set segs. CHR '','' \<notin> set g) \<and> join_comma segs = s
        \<and> nm \<in> set segs)"

text \<open>The live keys of the cache: the properties that hold an entry, in creation order.\<close>

definition live_keys :: "CacheEntryMap \<Rightarrow> string list" where
  "live_keys c = filter (\<lambda>k. cache_get c k \<noteq> None) (map fst c)"

text \<open>
  The invariant of the cache store: the property names of the cache object are distinct,
  the recency order has no duplicate, and it holds exactly the live keys.
\<close>

definition store_inv :: "CacheEntryMap \<Rightarrow> string list \<Rightarrow> bool" where
  "store_inv c ks = (distinct (map fst c) \<and> distinct ks \<and> set ks = set (live_keys c))"

text \<open>Every live entry holds an instance handle.\<close>

definition instances_present :: "CacheEntryMap \<Rightarrow> bool" where
  "instances_present c =
     list_all (\<lambda>k. case cache_get c k of None \<Rightarrow> True | Some e \<Rightarrow> componentInstance e \<noteq> None)
       (map fst c)"

text \<open>
  The destroy guard of an eviction: no comparison node is given, or the tag of the entry
  differs from the tag of the comparison node.
\<close>

definition destroy_due :: "VNode option \<Rightarrow> CacheEntry \<Rightarrow> bool" where
  "destroy_due current entry =
     (case current of None \<Rightarrow> True | Some cur \<Rightarrow> tag entry \<noteq> vtag cur)"

text \<open>
  The rule of the specification for a render pass that bypasses the cache, in its words: a
  prop is configured when it is not absent, a name is present when it is not absent.
\<close>

definition configured :: "pattern \<Rightarrow> bool" where
  "configured p = (case p of POther b \<Rightarrow> b | _ \<Rightarrow> True)"

definition ineligible :: "pattern \<Rightarrow> pattern \<Rightarrow> string option \<Rightarrow> bool" where
  "ineligible incl excl nm =
     ((configured incl \<and> (nm = None \<or> \<not> matches incl (the nm)))
      \<or> (configured excl \<and> nm \<noteq> None \<and> matches excl (the nm)))"

text \<open>
  The rule the source follows: a prop is in force when it is not absent and not the empty
  string, and an empty name counts as an absent one.
\<close>

definition in_force :: "pattern \<Rightarrow> bool" where
  "in_force p = (case p of PString s \<Rightarrow> s \<noteq> [] | POther b \<Rightarrow> b | _ \<Rightarrow> True)"

definition bypasses :: "pattern \<Rightarrow> pattern \<Rightarrow> string option \<Rightarrow> bool" where
  "bypasses incl excl nm =
     ((in_force incl \<and> (nm = None \<or> nm = Some [] \<or> \<not> matches incl (the nm)))
      \<or> (in_force excl \<and> nm \<noteq> None \<and> nm \<noteq> Some [] \<and> matches excl (the nm)))"

text \<open>
  A sweep with predicate \<open>flt\<close> is to evict the key \<open>k\<close>: it holds an entry whose name
  is present and fails the predicate. \<open>sweep_destroys\<close> lists the instances the sweep is
  to destroy, in the order the keys are visited.
\<close>

definition swept :: "CacheEntryMap \<Rightarrow> (string \<Rightarrow> bool) \<Rightarrow> string \<Rightarrow> bool" where
  "swept c flt k =
     (case cache_get c k of None \<Rightarrow> False
      | Some e \<Rightarrow> truthy_str (name e) \<and> \<not> flt (the (name e)))"

definition destroys_of ::
  "VNode option \<Rightarrow> CacheEntryMap \<Rightarrow> (string \<Rightarrow> bool) \<Rightarrow> string \<Rightarrow> inst list" where
  "destroys_of cur c flt k =
     (case cache_get c k of None \<Rightarrow> []
      | Some e \<Rightarrow> if swept c flt k \<and> destroy_due cur e
                  then (case componentInstance e of None \<Rightarrow> [] | Some i \<Rightarrow> [i]) else [])"

definition sweep_destroys ::
  "VNode option \<Rightarrow> CacheEntryMap \<Rightarrow> (string \<Rightarrow> bool) \<Rightarrow> string list \<Rightarrow> inst list" where
  "sweep_destroys cur c flt ks0 = concat (map (destroys_of cur c flt) ks0)"

text \<open>
  A sequence of commits. For each \<open>(k, v, cur)\<close>: \<open>render\<close> has staged the node under
  the key \<open>k\<close> (lines 199 and 200), the renderer has patched it, so that \<open>v\<close> is the
  node as the hook finds it, \<open>cur\<close> is the node on display, and the hook \<open>mounted\<close> or
  \<open>updated\<close> runs \<open>cacheVNode\<close>. The sequence stops at the first exception.
\<close>

fun commits :: "KeepAlive \<Rightarrow> (string \<times> VNode \<times> VNode option) list \<Rightarrow> error + KeepAlive" where
  "commits s [] = Inr s"
| "commits s ((k, v, cur) # rest) =
     (case cacheVNode (s\<lparr>vnodeToCache := Some v, keyToCache := k, cur_vnode := cur\<rparr>) of
        Inl e \<Rightarrow> Inl e
      | Inr s' \<Rightarrow> commits s' rest)"

subsection \<open>Example values\<close>

definition ex_props :: KeepAlive where
  "ex_props =
     \<lparr>cache = [], keys = [], vnodeToCache = None, keyToCache = [],
      include_prop = POther False, exclude_prop = POther False,
      max_prop = Some (MaxString ''2''), cur_vnode = None, parent_children = None,
      destroyed_log = []\<rparr>"

definition ex_vnode :: "string \<Rightarrow> string \<Rightarrow> inst \<Rightarrow> VNode" where
  "ex_vnode nm t i =
     \<lparr>vkey = None, vtag = Some t, vcomponentInstance = Some i,
      componentOptions = Some \<lparr>cid = 7, ctor_name = Some nm, opt_tag = Some t\<rparr>,
      data = Some \<lparr>keepAlive = False\<rparr>\<rparr>"

definition ex_entry :: "string \<Rightarrow> string \<Rightarrow> inst \<Rightarrow> CacheEntry" where
  "ex_entry nm t i = \<lparr>name = Some nm, tag = Some t, componentInstance = Some i\<rparr>"

section \<open>Properties\<close>

subsection \<open>The pattern matcher\<close>

lemma indexOf_ge: "indexOf xs x \<ge> - 1"
  by (induction xs) (auto simp: Let_def)

lemma indexOf_absent: "(indexOf xs x = - 1) = (x \<notin> set xs)"
proof (induction xs)
  case Nil
  show ?case by simp
next
  case (Cons y ys)
  have "indexOf ys x \<ge> - 1" by (rule indexOf_ge)
  with Cons show ?case by (auto simp: Let_def)
qed

lemma indexOf_found: "(indexOf xs x > - 1) = (x \<in> set xs)"
  using indexOf_ge [of xs x] indexOf_absent [of xs x] by linarith

lemma js_split_nonempty: "js_split s \<noteq> []"
  by (induction s) (auto split: list.splits)

lemma js_split_no_comma: "g \<in> set (js_split s) \<Longrightarrow> CHR '','' \<notin> set g"
  by (induction s arbitrary: g) (auto split: list.splits if_splits)

lemma join_js_split: "join_comma (js_split s) = s"
proof (induction s)
  case Nil
  show ?case by simp
next
  case (Cons c cs)
  obtain w ws where w: "js_split cs = w # ws"
    using js_split_nonempty [of cs] by (cases "js_split cs") auto
  show ?case
  proof (cases "c = CHR '',''")
    case True
    with Cons w show ?thesis by simp
  next
    case False
    with Cons w show ?thesis by (cases ws) auto
  qed
qed

lemma js_split_plain: "CHR '','' \<notin> set g \<Longrightarrow> js_split g = [g]"
  by (induction g) auto

lemma js_split_append: "CHR '','' \<notin> set g \<Longrightarrow> js_split (g @ CHR '','' # t) = g # js_split t"
  by (induction g) auto

lemma js_split_join:
  "segs \<noteq> [] \<Longrightarrow> \<forall>g \<in> set segs. CHR '','' \<notin> set g \<Longrightarrow> js_split (join_comma segs) = segs"
  by (induction segs rule: join_comma.induct) (auto simp: js_split_plain js_split_append)

lemma js_split_segment: "(nm \<in> set (js_split s)) = comma_segment s nm"
  unfolding comma_segment_def
  using js_split_nonempty js_split_no_comma join_js_split js_split_join by metis

text \<open>
  C9. \<open>matches(pattern, name)\<close> is true iff the pattern is an array with the name among
  its members, or a string with the name among its comma-separated segments, or a regular
  expression the name satisfies; for any other form of pattern it is false.
\<close>

theorem matches_spec:
  "matches p nm =
     (case p of PArray xs \<Rightarrow> nm \<in> set xs | PString s \<Rightarrow> comma_segment s nm
      | PRegExp r \<Rightarrow> r nm | POther b \<Rightarrow> False)"
  by (cases p) (simp_all add: indexOf_found js_split_segment)

theorem matches_spec_witness:
  "comma_segment ''a,bc'' ''bc'' \<and> \<not> comma_segment ''a,bc'' ''b''"
  using matches_spec [of "PString ''a,bc''" "''bc''"] matches_spec [of "PString ''a,bc''" "''b''"]
  by simp

subsection \<open>Key resolution\<close>












lemma string_of_nat_7: "string_of_nat 7 = ''7''"
  by code_simp

subsection \<open>The cache object and the recency order\<close>

lemma cache_get_set: "cache_get (cache_set c k v) k' = (if k' = k then v else cache_get c k')"
  by (simp add: cache_get_def cache_set_def update_conv')

lemma cache_set_names: "distinct (map fst c) \<Longrightarrow> distinct (map fst (cache_set c k v))"
  by (simp add: cache_set_def distinct_update)

lemma cache_get_name: "cache_get c k = Some e \<Longrightarrow> k \<in> fst ` set c"
  by (auto simp: cache_get_def split: option.splits dest: map_of_SomeD intro: rev_image_eqI)

lemma set_live_keys: "set (live_keys c) = {k. cache_get c k \<noteq> None}"
  by (auto simp: live_keys_def dest: cache_get_name)

lemma distinct_live_keys: "distinct (map fst c) \<Longrightarrow> distinct (live_keys c)"
  by (simp add: live_keys_def)

lemma live_cache_set:
  "set (live_keys (cache_set c k v))
     = (if v = None then set (live_keys c) - {k} else insert k (set (live_keys c)))"
  by (auto simp: set_live_keys cache_get_set)

lemma set_for_in_keys: "set (for_in_keys c) = fst ` set c"
  by (auto simp: for_in_keys_def)

lemma distinct_for_in_keys: "distinct (map fst c) \<Longrightarrow> distinct (for_in_keys c)"
  by (auto simp: for_in_keys_def)

lemma remove_distinct: "distinct ks \<Longrightarrow> remove ks k = filter (\<lambda>x. x \<noteq> k) ks"
  by (induction ks) (auto simp: remove_def remove1_idem)

lemma instances_present_iff:
  "instances_present c = (\<forall>k e. cache_get c k = Some e \<longrightarrow> componentInstance e \<noteq> None)"
proof
  assume a: "instances_present c"
  show "\<forall>k e. cache_get c k = Some e \<longrightarrow> componentInstance e \<noteq> None"
  proof (intro allI impI)
    fix k e assume g: "cache_get c k = Some e"
    then have "k \<in> set (map fst c)" using cache_get_name [of c k e] by simp
    with a g show "componentInstance e \<noteq> None"
      unfolding instances_present_def list_all_iff by fastforce
  qed
next
  assume "\<forall>k e. cache_get c k = Some e \<longrightarrow> componentInstance e \<noteq> None"
  then show "instances_present c"
    unfolding instances_present_def list_all_iff by (auto split: option.splits)
qed

lemma instances_present_set:
  "instances_present c \<Longrightarrow> (case v of None \<Rightarrow> True | Some e \<Rightarrow> componentInstance e \<noteq> None)
     \<Longrightarrow> instances_present (cache_set c k v)"
  by (auto simp: instances_present_iff cache_get_set split: option.splits if_splits)

lemma store_inv_set:
  assumes "store_inv c ks" and "k \<notin> set ks"
  shows "store_inv (cache_set c k (Some e)) (ks @ [k])"
  using assms by (auto simp: store_inv_def cache_set_names live_cache_set)

lemma store_inv_prune:
  assumes "store_inv c ks"
  shows "store_inv (cache_set c k None) (remove ks k)"
  using assms by (auto simp: store_inv_def cache_set_names live_cache_set remove_distinct)

lemma store_inv_length: "store_inv c ks \<Longrightarrow> length (live_keys c) = length ks"
  using distinct_card [of "live_keys c"] distinct_card [of ks]
  by (simp add: store_inv_def distinct_live_keys)

lemma store_inv_created: "store_inv (cache (created s0)) (keys (created s0))"
  by (simp add: store_inv_def created_def live_keys_def)

lemma instances_present_created: "instances_present (cache (created s0))"
  by (simp add: instances_present_def created_def)

subsection \<open>Eviction of one entry\<close>

lemma pruneCacheEntry_Inr:
  "pruneCacheEntry c key ks current ds = Inr (c', ks', ds') \<Longrightarrow>
     c' = cache_set c key None \<and> ks' = remove ks key \<and>
     ds' = (case cache_get c key of None \<Rightarrow> ds
            | Some e \<Rightarrow> if destroy_due current e then ds @ [the (componentInstance e)] else ds)"
  by (auto simp: pruneCacheEntry_def destroy_due_def split: option.splits if_splits)

text \<open>The eviction raises exactly when a destroy is due on an entry without instance.\<close>

lemma pruneCacheEntry_Inl:
  "(pruneCacheEntry c key ks current ds = Inl err) =
     (\<exists>e. cache_get c key = Some e \<and> destroy_due current e \<and> componentInstance e = None)"
  by (cases err) (auto simp: pruneCacheEntry_def destroy_due_def split: option.splits if_splits)

lemma pruneCacheEntry_absent:
  "cache_get c key = None \<Longrightarrow>
     pruneCacheEntry c key ks current ds = Inr (cache_set c key None, remove ks key, ds)"
  by (simp add: pruneCacheEntry_def)

lemma pruneCacheEntry_store_inv:
  "store_inv c ks \<Longrightarrow> pruneCacheEntry c k ks cur ds = Inr (c', ks', ds') \<Longrightarrow> store_inv c' ks'"
  using store_inv_prune [of c ks k] by (auto dest: pruneCacheEntry_Inr)

text \<open>
  C2. An eviction by \<open>pruneCacheEntry\<close>, of a key whose entry, if a destroy is due on it,
  holds an instance, in a recency order without duplicates: when the entry exists and no
  comparison node is given or the tags differ, \<open>$destroy\<close> is called on the instance of the
  entry (the log grows by it); when the tags are equal, or no entry exists, nothing is
  destroyed; in every case the key leaves the recency order, the other keys keep their
  order, the key holds no entry afterwards, and the other entries are as before.
\<close>

theorem pruneCacheEntry_spec:
  assumes "distinct ks"
    and "\<forall>e. cache_get c key = Some e \<longrightarrow> destroy_due current e \<longrightarrow> componentInstance e \<noteq> None"
  shows "\<exists>c'. pruneCacheEntry c key ks current ds =
                Inr (c', filter (\<lambda>k. k \<noteq> key) ks,
                     (case cache_get c key of
                        None \<Rightarrow> ds
                      | Some e \<Rightarrow> if current = None \<or> tag e \<noteq> vtag (the current)
                                  then ds @ [the (componentInstance e)] else ds))
              \<and> cache_get c' key = None
              \<and> (\<forall>k. k \<noteq> key \<longrightarrow> cache_get c' k = cache_get c k)"
  using assms
  by (auto simp: pruneCacheEntry_def destroy_due_def remove_distinct cache_get_set
      split: option.splits)

theorem pruneCacheEntry_spec_witness:
  "\<exists>c'. pruneCacheEntry
           [(''a'', Some (ex_entry ''Foo'' ''div'' 1)), (''b'', Some (ex_entry ''Bar'' ''p'' 2))]
           ''a'' [''a'', ''b''] (Some (ex_vnode ''Bar'' ''p'' 2)) []
         = Inr (c', [''b''], [1])
       \<and> cache_get c' ''a'' = None
       \<and> cache_get c' ''b'' = Some (ex_entry ''Bar'' ''p'' 2)"
proof -
  let ?c = "[(''a'', Some (ex_entry ''Foo'' ''div'' 1)), (''b'', Some (ex_entry ''Bar'' ''p'' 2))]"
  let ?cur = "Some (ex_vnode ''Bar'' ''p'' 2)"
  have d: "distinct [''a'', ''b'']" by simp
  have i: "\<forall>e. cache_get ?c ''a'' = Some e \<longrightarrow> destroy_due ?cur e \<longrightarrow> componentInstance e \<noteq> None"
    by (simp add: cache_get_def ex_entry_def)
  from pruneCacheEntry_spec [OF d i, of "[]"] obtain c' where
    p: "pruneCacheEntry ?c ''a'' [''a'', ''b''] ?cur [] =
          Inr (c', filter (\<lambda>k. k \<noteq> ''a'') [''a'', ''b''],
               (case cache_get ?c ''a'' of
                  None \<Rightarrow> []
                | Some e \<Rightarrow> if ?cur = None \<or> tag e \<noteq> vtag (the ?cur)
                            then [] @ [the (componentInstance e)] else []))"
    and a: "cache_get c' ''a'' = None"
    and b: "\<forall>k. k \<noteq> ''a'' \<longrightarrow> cache_get c' k = cache_get ?c k"
    by blast
  from b have "cache_get c' ''b'' = cache_get ?c ''b''" by simp
  then have b': "cache_get c' ''b'' = Some (ex_entry ''Bar'' ''p'' 2)"
    by (simp add: cache_get_def)
  from p have "pruneCacheEntry ?c ''a'' [''a'', ''b''] ?cur [] = Inr (c', [''b''], [1])"
    by (simp add: cache_get_def ex_entry_def ex_vnode_def)
  with a b' show ?thesis by blast
qed

lemma destroyed_loop_Inr:
  "destroyed_loop ks0 (c, ks, ds) = Inr (c', ks', ds') \<Longrightarrow>
     (\<forall>k. cache_get c' k = (if k \<in> set ks0 then None else cache_get c k))"
proof (induction ks0 arbitrary: c ks ds)
  case Nil
  then show ?case by simp
next
  case (Cons k0 rest)
  from Cons.prems obtain c1 ks1 ds1 where
    p: "pruneCacheEntry c k0 ks None ds = Inr (c1, ks1, ds1)"
    and r: "destroyed_loop rest (c1, ks1, ds1) = Inr (c', ks', ds')"
    by (auto split: sum.splits)
  from p have c1: "c1 = cache_set c k0 None" by (simp add: pruneCacheEntry_Inr)
  from Cons.IH [OF r] show ?case by (auto simp: c1 cache_get_set)
qed

lemma destroyed_cache:
  assumes "destroyed s = Inr s'"
  shows "cache_get (cache s') k = None"
proof -
  from assms obtain c' ks' ds' where
    l: "destroyed_loop (for_in_keys (cache s)) (cache s, keys s, destroyed_log s) = Inr (c', ks', ds')"
    and s': "s' = s\<lparr>cache := c', keys := ks', destroyed_log := ds'\<rparr>"
    by (auto simp: destroyed_def split: sum.splits)
  have "cache_get c' k = None"
  proof (cases "k \<in> set (for_in_keys (cache s))")
    case True
    with destroyed_loop_Inr [OF l] show ?thesis by simp
  next
    case False
    then have "cache_get (cache s) k = None"
      using cache_get_name [of "cache s" k] by (auto simp: set_for_in_keys)
    with False destroyed_loop_Inr [OF l] show ?thesis by simp
  qed
  with s' show ?thesis by simp
qed

text \<open>
  C7. Once \<open>pruneCacheEntry\<close> has evicted a key, the key holds no entry, and evicting
  it again (with any comparison node) destroys nothing and leaves the cache as it is. The
  same holds for every key after the teardown of the container: no key holds an entry, and
  an eviction destroys nothing.
\<close>

theorem evict_twice:
  "(pruneCacheEntry c key ks current ds = Inr (c', ks', ds') \<longrightarrow>
      cache_get c' key = None
      \<and> pruneCacheEntry c' key ks' current' ds' = Inr (c', remove ks' key, ds'))
   \<and> (destroyed s = Inr s' \<longrightarrow>
        cache_get (cache s') key = None
        \<and> pruneCacheEntry (cache s') key (keys s') current' (destroyed_log s')
            = Inr (cache_set (cache s') key None, remove (keys s') key, destroyed_log s'))"
proof (intro conjI impI)
  assume p: "pruneCacheEntry c key ks current ds = Inr (c', ks', ds')"
  then have c': "c' = cache_set c key None" by (simp add: pruneCacheEntry_Inr)
  then show g: "cache_get c' key = None" by (simp add: cache_get_set)
  have "cache_set c' key None = c'" by (simp add: c' cache_set_def)
  with g show "pruneCacheEntry c' key ks' current' ds' = Inr (c', remove ks' key, ds')"
    by (simp add: pruneCacheEntry_absent)
next
  assume d: "destroyed s = Inr s'"
  then show g: "cache_get (cache s') key = None" by (rule destroyed_cache)
  then show "pruneCacheEntry (cache s') key (keys s') current' (destroyed_log s')
            = Inr (cache_set (cache s') key None, remove (keys s') key, destroyed_log s')"
    by (simp add: pruneCacheEntry_absent)
qed

theorem evict_twice_witness:
  "pruneCacheEntry [(''a'', None), (''b'', Some (ex_entry ''B'' ''p'' 2))] ''a'' [''b''] None [1]
     = Inr ([(''a'', None), (''b'', Some (ex_entry ''B'' ''p'' 2))], [''b''], [1])
   \<and> pruneCacheEntry [(''a'', None), (''b'', None)] ''a'' [] None [1, 2]
     = Inr ([(''a'', None), (''b'', None)], [], [1, 2])"
proof -
  let ?c = "[(''a'', Some (ex_entry ''A'' ''div'' 1)), (''b'', Some (ex_entry ''B'' ''p'' 2))]"
  let ?c' = "[(''a'', None), (''b'', Some (ex_entry ''B'' ''p'' 2))]"
  let ?s = "ex_props\<lparr>cache := ?c', keys := [''b''], destroyed_log := [1]\<rparr>"
  let ?s' = "ex_props\<lparr>cache := [(''a'', None), (''b'', None)], keys := [],
                      destroyed_log := [1, 2]\<rparr>"
  have first: "pruneCacheEntry ?c ''a'' [''a'', ''b''] None [] = Inr (?c', [''b''], [1])"
    by (simp add: pruneCacheEntry_def ex_entry_def cache_get_def cache_set_def remove_def)
  have teardown: "destroyed ?s = Inr ?s'"
    by (simp add: pruneCacheEntry_def destroyed_def ex_props_def ex_entry_def cache_get_def
        cache_set_def remove_def for_in_keys_def isArrayIndex_def index_value_def dec_digit_def
        digits_value_def)
  from evict_twice [of ?c "''a''" "[''a'', ''b'']" None "[]" ?c' "[''b'']" "[1]" None ?s ?s']
    first teardown
  show ?thesis
    by (simp add: ex_props_def cache_set_def remove_def)
qed


subsection \<open>The render pass\<close>

lemma not_cached_bypasses: "not_cached incl excl nm = bypasses incl excl nm"
  by (cases nm; cases incl; cases excl)
     (auto simp: not_cached_def bypasses_def in_force_def truthy_pattern_def)

lemma render_cached_marks:
  "render_cached s v co = Inr (out, s') \<Longrightarrow>
     \<exists>v' d. out = Some v' \<and> data v' = Some d \<and> keepAlive d"
  by (auto simp: render_cached_def Let_def split: option.splits)

text \<open>
  C4, as the specification has it: a pass is ineligible exactly when (include is configured
  and (the name is absent or does not match include)) or (exclude is configured and the name
  is present and matches exclude), and an ineligible pass returns the child untouched. The
  source tests \<open>include &&\<close>, and the empty string is falsy: with \<open>include = ""\<close>, a
  name list that holds no name of a component, the rule makes the child \<open>C\<close> ineligible,
  while \<open>render\<close> stages it for the cache and marks it.
\<close>

theorem render_empty_include_cached:
  "ineligible (PString []) (POther False) (Some ''C'')
   \<and> render (ex_props\<lparr>include_prop := PString []\<rparr>) None (Some (ex_vnode ''C'' ''div'' 4))
     = Inr (Some ((ex_vnode ''C'' ''div'' 4)\<lparr>data := Some \<lparr>keepAlive = True\<rparr>\<rparr>),
            ex_props\<lparr>include_prop := PString [],
                      vnodeToCache := Some ((ex_vnode ''C'' ''div'' 4)\<lparr>data := Some \<lparr>keepAlive = True\<rparr>\<rparr>),
                      keyToCache := ''7::div''\<rparr>)"
  by (simp add: ineligible_def configured_def render_def render_cached_def not_cached_def
      truthy_pattern_def resolve_key_def string_of_nat_7 ex_props_def ex_vnode_def
      cache_get_def local_getComponentName_def truthy_str_def Let_def)

text \<open>
  C4, amended. A render pass over a child with component options bypasses the cache exactly
  when (include is in force and (the name is absent or empty or does not match include)) or
  (exclude is in force and the name is present, not empty, and matches exclude), where a
  prop is in force when it is neither absent nor the empty string. A bypassing pass returns
  the child as it is and leaves the whole state as it is, whatever the cache holds; every
  other pass takes the cached path, which returns the node marked \<open>keepAlive\<close> when
  it returns.
\<close>

theorem render_bypass:
  assumes "componentOptions v = Some co"
  shows "(bypasses (include_prop s) (exclude_prop s) (local_getComponentName (Some co)) \<longrightarrow>
            render s slot0 (Some v) = Inr (Some v, s))
         \<and> (\<not> bypasses (include_prop s) (exclude_prop s) (local_getComponentName (Some co)) \<longrightarrow>
            render s slot0 (Some v) = render_cached s v co
            \<and> (\<forall>out s'. render s slot0 (Some v) = Inr (out, s') \<longrightarrow>
                 (\<exists>v' d. out = Some v' \<and> data v' = Some d \<and> keepAlive d)))"
  using assms render_cached_marks [of s v co]
  by (auto simp: render_def not_cached_bypasses)

theorem render_bypass_witness:
  "render (ex_props\<lparr>include_prop := PString ''A,B'',
                    cache := [(''7::div'', Some (ex_entry ''C'' ''div'' 3))],
                    keys := [''7::div'']\<rparr>)
     None (Some (ex_vnode ''C'' ''div'' 4))
   = Inr (Some (ex_vnode ''C'' ''div'' 4),
          ex_props\<lparr>include_prop := PString ''A,B'',
                    cache := [(''7::div'', Some (ex_entry ''C'' ''div'' 3))],
                    keys := [''7::div'']\<rparr>)"
proof -
  let ?s = "ex_props\<lparr>include_prop := PString ''A,B'',
                     cache := [(''7::div'', Some (ex_entry ''C'' ''div'' 3))],
                     keys := [''7::div'']\<rparr>"
  let ?co = "\<lparr>cid = 7, ctor_name = Some ''C'', opt_tag = Some ''div''\<rparr>"
  have co: "componentOptions (ex_vnode ''C'' ''div'' 4) = Some ?co"
    by (simp add: ex_vnode_def)
  have inel: "bypasses (include_prop ?s) (exclude_prop ?s) (local_getComponentName (Some ?co))"
    by (simp add: ex_props_def bypasses_def in_force_def truthy_str_def
        local_getComponentName_def)
  from render_bypass [OF co, of ?s None] inel show ?thesis by blast
qed

text \<open>
  C3. A render pass of an eligible child whose key holds an entry in the cache returns the
  child bound to the instance handle of that entry, and moves the key to the end of the
  recency order: the key is taken out of its place and appended, and a recency order
  without duplicates stays so. Nothing is staged and the cache is as before.
\<close>

theorem render_hit:
  assumes "componentOptions v = Some co"
    and "\<not> not_cached (include_prop s) (exclude_prop s) (local_getComponentName (Some co))"
    and "cache_get (cache s) (resolve_key v co) = Some e"
    and "data v = Some d"
    and "distinct (keys s)"
  shows "render s slot0 (Some v) =
           Inr (Some (v\<lparr>vcomponentInstance := componentInstance e,
                        data := Some (d\<lparr>keepAlive := True\<rparr>)\<rparr>),
                s\<lparr>keys := filter (\<lambda>k. k \<noteq> resolve_key v co) (keys s) @ [resolve_key v co]\<rparr>)
         \<and> distinct (filter (\<lambda>k. k \<noteq> resolve_key v co) (keys s) @ [resolve_key v co])"
  using assms by (simp add: render_def render_cached_def remove_distinct Let_def)

theorem render_hit_witness:
  "render (ex_props\<lparr>cache := [(''7::div'', Some (ex_entry ''C'' ''div'' 3)),
                              (''7::p'', Some (ex_entry ''D'' ''p'' 5))],
                    keys := [''7::div'', ''7::p'']\<rparr>)
     None (Some (ex_vnode ''C'' ''div'' 4))
   = Inr (Some ((ex_vnode ''C'' ''div'' 4)\<lparr>vcomponentInstance := Some 3,
                                          data := Some \<lparr>keepAlive = True\<rparr>\<rparr>),
          ex_props\<lparr>cache := [(''7::div'', Some (ex_entry ''C'' ''div'' 3)),
                              (''7::p'', Some (ex_entry ''D'' ''p'' 5))],
                    keys := [''7::p'', ''7::div'']\<rparr>)"
proof -
  let ?s = "ex_props\<lparr>cache := [(''7::div'', Some (ex_entry ''C'' ''div'' 3)),
                               (''7::p'', Some (ex_entry ''D'' ''p'' 5))],
                     keys := [''7::div'', ''7::p'']\<rparr>"
  let ?v = "ex_vnode ''C'' ''div'' 4"
  let ?co = "\<lparr>cid = 7, ctor_name = Some ''C'', opt_tag = Some ''div''\<rparr>"
  have co: "componentOptions ?v = Some ?co" by (simp add: ex_vnode_def)
  have el: "\<not> not_cached (include_prop ?s) (exclude_prop ?s) (local_getComponentName (Some ?co))"
    by (simp add: ex_props_def not_cached_def truthy_pattern_def)
  have key: "resolve_key ?v ?co = ''7::div''"
    by (simp add: resolve_key_def ex_vnode_def string_of_nat_7)
  have hit: "cache_get (cache ?s) (resolve_key ?v ?co) = Some (ex_entry ''C'' ''div'' 3)"
    by (simp add: key) (simp add: cache_get_def ex_props_def)
  have d: "data ?v = Some \<lparr>keepAlive = False\<rparr>" by (simp add: ex_vnode_def)
  have ks: "distinct (keys ?s)" by (simp add: ex_props_def)
  from render_hit [OF co el hit d ks, of None] show ?thesis
    by (simp add: key) (simp add: ex_props_def ex_entry_def)
qed

lemma render_store_inv:
  assumes "store_inv (cache s) (keys s)" and "render s slot0 vnode = Inr (out, s')"
  shows "store_inv (cache s') (keys s')
         \<and> (vnodeToCache s' \<noteq> vnodeToCache s \<longrightarrow> cache_get (cache s') (keyToCache s') = None)"
proof -
  have hit: "store_inv (cache s) (remove (keys s) k @ [k])" if "cache_get (cache s) k = Some e"
    for k e
  proof -
    have "k \<in> set (keys s)" using assms(1) that by (auto simp: store_inv_def set_live_keys)
    then show ?thesis using assms(1) by (auto simp: store_inv_def remove_distinct)
  qed
  show ?thesis
    using assms hit
    by (auto simp: render_def render_cached_def Let_def split: option.splits if_splits)
qed

subsection \<open>The commit and the capacity\<close>

text \<open>
  C5, as the specification has it: a value of \<open>max\<close> that is not positive or cannot be
  parsed means no limit, so that no commit evicts. The source tests the truthiness of
  \<open>max\<close> and then compares the length with \<open>parseInt(max)\<close>: the string \<open>"0"\<close> is
  truthy and parses to 0, so the commit of the first key evicts that very key.
\<close>

theorem max_zero_string_evicts:
  "cacheVNode (ex_props\<lparr>max_prop := Some (MaxString ''0''),
                        vnodeToCache := Some (ex_vnode ''A'' ''div'' 1),
                        keyToCache := ''a''\<rparr>)
   = Inr (ex_props\<lparr>max_prop := Some (MaxString ''0''), vnodeToCache := None,
                   keyToCache := ''a'', cache := [(''a'', None)], keys := [],
                   destroyed_log := [1]\<rparr>)"
  by (simp add: cacheVNode_def ex_props_def ex_vnode_def over_max_def truthy_max_def
      parseInt_max_def parseInt_def is_space_def dec_digit_def digits_value_def
      pruneCacheEntry_def cache_get_def cache_set_def remove_def local_getComponentName_def
      truthy_str_def)

text \<open>
  C5, amended. When \<open>max\<close> is falsy (absent, the number 0 or the empty string) or cannot
  be parsed as an integer, a commit by \<open>cacheVNode\<close> stores the entry, appends the key and
  evicts nothing: the other entries, the other keys and the log of destroyed instances are
  as before.
\<close>

theorem no_limit_commit:
  assumes "vnodeToCache s = Some v"
    and "\<not> truthy_max (max_prop s) \<or> parseInt_max (max_prop s) = None"
  shows "cacheVNode s =
           Inr (s\<lparr>cache := cache_set (cache s) (keyToCache s)
                             (Some \<lparr>name = local_getComponentName (componentOptions v),
                                    tag = vtag v,
                                    componentInstance = vcomponentInstance v\<rparr>),
                  keys := keys s @ [keyToCache s], vnodeToCache := None\<rparr>)"
  using assms by (auto simp: cacheVNode_def over_max_def)

theorem no_limit_commit_witness:
  "cacheVNode (ex_props\<lparr>max_prop := Some (MaxString ''abc''),
                        cache := [(''b'', Some (ex_entry ''B'' ''p'' 2))], keys := [''b''],
                        vnodeToCache := Some (ex_vnode ''A'' ''div'' 1),
                        keyToCache := ''a''\<rparr>)
   = Inr (ex_props\<lparr>max_prop := Some (MaxString ''abc''),
                   cache := [(''b'', Some (ex_entry ''B'' ''p'' 2)),
                             (''a'', Some (ex_entry ''A'' ''div'' 1))],
                   keys := [''b'', ''a''], vnodeToCache := None, keyToCache := ''a''\<rparr>)"
proof -
  let ?s = "ex_props\<lparr>max_prop := Some (MaxString ''abc''),
                     cache := [(''b'', Some (ex_entry ''B'' ''p'' 2))], keys := [''b''],
                     vnodeToCache := Some (ex_vnode ''A'' ''div'' 1), keyToCache := ''a''\<rparr>"
  have st: "vnodeToCache ?s = Some (ex_vnode ''A'' ''div'' 1)" by simp
  have "parseInt_max (max_prop ?s) = None"
    by (simp add: parseInt_max_def parseInt_def is_space_def dec_digit_def)
  then have mx: "\<not> truthy_max (max_prop ?s) \<or> parseInt_max (max_prop ?s) = None" by simp
  from no_limit_commit [OF st mx] show ?thesis
    by (simp add: ex_props_def ex_vnode_def ex_entry_def cache_set_def
        local_getComponentName_def truthy_str_def)
qed

text \<open>White space before the numeral is skipped, the no-break space too.\<close>

lemma parseInt_nbsp: "parseInt [char_of (160 :: nat), CHR ''1''] = Some 1"
  by (simp add: parseInt_def is_space_def dec_digit_def digits_value_def)

text \<open>A truthy \<open>max\<close> that parses to an integer below 1 makes every commit evict.\<close>

lemma nonpositive_max_evicts:
  assumes "truthy_max m" and "parseInt_max m = Some n" and "n \<le> 0"
  shows "over_max m (ks @ [k])"
  using assms by (simp add: over_max_def)

lemma over_max_iff:
  "truthy_max m \<Longrightarrow> parseInt_max m = Some N \<Longrightarrow> over_max m ks = (int (length ks) > N)"
  by (simp add: over_max_def)

text \<open>
  One commit under a capacity \<open>N\<close>, from a state that satisfies the invariant of the store
  and holds at most \<open>N\<close> keys: the result holds the last \<open>N\<close> of the keys.
\<close>

lemma cacheVNode_good:
  assumes inv: "store_inv (cache s) (keys s)" and ip: "instances_present (cache s)"
    and st: "vnodeToCache s = Some v" and vi: "vcomponentInstance v \<noteq> None"
    and fresh: "keyToCache s \<notin> set (keys s)"
    and mx: "truthy_max (max_prop s)" "parseInt_max (max_prop s) = Some N" and N: "1 \<le> N"
    and len: "int (length (keys s)) \<le> N"
  shows "\<exists>s'. cacheVNode s = Inr s'
           \<and> keys s' = drop (length (keys s) + 1 - nat N) (keys s @ [keyToCache s])
           \<and> store_inv (cache s') (keys s') \<and> instances_present (cache s')
           \<and> max_prop s' = max_prop s"
proof -
  let ?k = "keyToCache s"
  let ?e = "\<lparr>name = local_getComponentName (componentOptions v), tag = vtag v,
             componentInstance = vcomponentInstance v\<rparr>"
  let ?c1 = "cache_set (cache s) ?k (Some ?e)"
  let ?ks1 = "keys s @ [?k]"
  have inv1: "store_inv ?c1 ?ks1" using inv fresh by (rule store_inv_set)
  have ip1: "instances_present ?c1" using vi by (intro instances_present_set [OF ip]) simp
  have om: "over_max (max_prop s) ?ks1 = (int (length (keys s)) = N)"
    using len by (auto simp: over_max_iff [OF mx])
  show ?thesis
  proof (cases "int (length (keys s)) = N")
    case False
    then have "length (keys s) + 1 - nat N = 0" using len N by linarith
    then show ?thesis using False om st inv1 ip1 by (simp add: cacheVNode_def)
  next
    case True
    then obtain h t where ks: "keys s = h # t" using N by (cases "keys s") auto
    have hk: "h \<noteq> ?k" using fresh ks by auto
    have "h \<in> set (live_keys (cache s))" using inv ks by (auto simp: store_inv_def)
    then obtain e where e: "cache_get (cache s) h = Some e" by (auto simp: set_live_keys)
    then obtain i where i: "componentInstance e = Some i"
      using ip by (auto simp: instances_present_iff)
    have e1: "cache_get ?c1 h = Some e" using e hk by (simp add: cache_get_set)
    have "\<exists>ds'. pruneCacheEntry ?c1 h ?ks1 (cur_vnode s) (destroyed_log s)
        = Inr (cache_set ?c1 h None, remove ?ks1 h, ds')"
      using e1 i by (simp add: pruneCacheEntry_def)
    then obtain ds' where p: "pruneCacheEntry ?c1 h ?ks1 (cur_vnode s) (destroyed_log s)
        = Inr (cache_set ?c1 h None, remove ?ks1 h, ds')"
      by blast
    have r: "remove ?ks1 h = t @ [?k]" by (simp add: ks remove_def)
    have d: "drop (length (keys s) + 1 - nat N) ?ks1 = t @ [?k]"
    proof -
      have "length (keys s) + 1 - nat N = 1" using True N by linarith
      then show ?thesis by (simp add: ks)
    qed
    have inv2: "store_inv (cache_set ?c1 h None) (remove ?ks1 h)"
      using inv1 by (rule store_inv_prune)
    have ip2: "instances_present (cache_set ?c1 h None)"
      by (rule instances_present_set [OF ip1]) simp
    have "cacheVNode s = Inr (s\<lparr>cache := cache_set ?c1 h None, keys := remove ?ks1 h,
        destroyed_log := ds', vnodeToCache := None\<rparr>)"
      using True om st p by (simp add: cacheVNode_def ks)
    then show ?thesis using inv2 ip2 r d by simp
  qed
qed

lemma drop_drop_append:
  "d \<le> length xs \<Longrightarrow> drop a (drop d xs @ r) = drop (a + d) (xs @ r)"
  by simp

lemma commits_append:
  "commits s (xs @ ys) = (case commits s xs of Inl e \<Rightarrow> Inl e | Inr s' \<Rightarrow> commits s' ys)"
  by (induction s xs rule: commits.induct) (auto split: sum.splits)

lemma commits_keys:
  assumes "store_inv (cache s) (keys s)" and "instances_present (cache s)"
    and "truthy_max (max_prop s)" and "parseInt_max (max_prop s) = Some N" and "1 \<le> N"
    and "int (length (keys s)) \<le> N"
    and "distinct (map fst steps)" and "set (map fst steps) \<inter> set (keys s) = {}"
    and "\<forall>x \<in> set steps. vcomponentInstance (fst (snd x)) \<noteq> None"
  shows "\<exists>s'. commits s steps = Inr s'
           \<and> keys s' = drop (length (keys s) + length steps - nat N) (keys s @ map fst steps)
           \<and> store_inv (cache s') (keys s') \<and> instances_present (cache s')"
  using assms
proof (induction steps arbitrary: s)
  case Nil
  then show ?case by simp
next
  case (Cons x rest)
  obtain k v cur where x: "x = (k, v, cur)" by (cases x) auto
  let ?s1 = "s\<lparr>vnodeToCache := Some v, keyToCache := k, cur_vnode := cur\<rparr>"
  have fresh: "keyToCache ?s1 \<notin> set (keys ?s1)" using Cons.prems(8) x by auto
  have vi: "vcomponentInstance v \<noteq> None" using Cons.prems(9) x by auto
  from cacheVNode_good [of ?s1 v N] Cons.prems(1-6) fresh vi
  obtain s' where c: "cacheVNode ?s1 = Inr s'"
    and ks: "keys s' = drop (length (keys s) + 1 - nat N) (keys s @ [k])"
    and inv: "store_inv (cache s') (keys s')" and ip: "instances_present (cache s')"
    and mp: "max_prop s' = max_prop s"
    by auto
  have len: "int (length (keys s')) \<le> N" using ks Cons.prems(5,6) by auto
  have sub: "set (keys s') \<subseteq> insert k (set (keys s))"
    using set_drop_subset [of "length (keys s) + 1 - nat N" "keys s @ [k]"] ks by auto
  have disj: "set (map fst rest) \<inter> set (keys s') = {}"
    using sub Cons.prems(7,8) x by auto
  from Cons.IH [OF inv ip _ _ Cons.prems(5) len _ disj] Cons.prems(3,4,7,9) mp
  obtain s'' where r: "commits s' rest = Inr s''"
    and ks': "keys s'' = drop (length (keys s') + length rest - nat N) (keys s' @ map fst rest)"
    and inv': "store_inv (cache s'') (keys s'')" and ip': "instances_present (cache s'')"
    by auto
  let ?d = "length (keys s) + 1 - nat N"
  have dl: "?d \<le> length (keys s @ [k])" by simp
  have "keys s'' = drop (length (keys s') + length rest - nat N)
      (drop ?d (keys s @ [k]) @ map fst rest)"
    using ks' by (simp only: ks)
  then have "keys s'' = drop (length (keys s') + length rest - nat N + ?d)
      ((keys s @ [k]) @ map fst rest)"
    by (simp only: drop_drop_append [OF dl])
  moreover have "length (keys s') + length rest - nat N + ?d
      = length (keys s) + length (x # rest) - nat N"
    using ks Cons.prems(5,6) by (simp add: ks)
  ultimately have "keys s'' = drop (length (keys s) + length (x # rest) - nat N)
      (keys s @ map fst (x # rest))"
    by (simp add: x)
  then show ?case using c r inv' ip' by (simp add: x)
qed

text \<open>The same for a commit that completes, whether or not the entries hold instances.\<close>

lemma cacheVNode_step:
  assumes inv: "store_inv (cache s) (keys s)"
    and st: "vnodeToCache s = Some v"
    and fresh: "keyToCache s \<notin> set (keys s)"
    and mx: "truthy_max (max_prop s)" "parseInt_max (max_prop s) = Some N" and N: "1 \<le> N"
    and len: "int (length (keys s)) \<le> N"
    and r: "cacheVNode s = Inr s'"
  shows "keys s' = drop (length (keys s) + 1 - nat N) (keys s @ [keyToCache s])
         \<and> store_inv (cache s') (keys s') \<and> max_prop s' = max_prop s"
proof -
  let ?k = "keyToCache s"
  let ?e = "\<lparr>name = local_getComponentName (componentOptions v), tag = vtag v,
             componentInstance = vcomponentInstance v\<rparr>"
  let ?c1 = "cache_set (cache s) ?k (Some ?e)"
  let ?ks1 = "keys s @ [?k]"
  have inv1: "store_inv ?c1 ?ks1" using inv fresh by (rule store_inv_set)
  have om: "over_max (max_prop s) ?ks1 = (int (length (keys s)) = N)"
    using len by (auto simp: over_max_iff [OF mx])
  show ?thesis
  proof (cases "int (length (keys s)) = N")
    case False
    then have "length (keys s) + 1 - nat N = 0" using len N by linarith
    then show ?thesis using False om st inv1 r by (auto simp: cacheVNode_def)
  next
    case True
    then obtain h t where ks: "keys s = h # t" using N by (cases "keys s") auto
    from r True om st obtain c2 ks2 ds2 where
      p: "pruneCacheEntry ?c1 h ?ks1 (cur_vnode s) (destroyed_log s) = Inr (c2, ks2, ds2)"
      and s': "s' = s\<lparr>cache := c2, keys := ks2, destroyed_log := ds2, vnodeToCache := None\<rparr>"
      by (auto simp: cacheVNode_def ks split: sum.splits)
    from p have c2: "c2 = cache_set ?c1 h None" and ks2: "ks2 = remove ?ks1 h"
      by (simp_all add: pruneCacheEntry_Inr)
    have rm: "remove ?ks1 h = t @ [?k]" by (simp add: ks remove_def)
    have d: "drop (length (keys s) + 1 - nat N) ?ks1 = t @ [?k]"
    proof -
      have "length (keys s) + 1 - nat N = 1" using True N by linarith
      then show ?thesis by (simp add: ks)
    qed
    have "store_inv c2 ks2" unfolding c2 ks2 using inv1 by (rule store_inv_prune)
    then show ?thesis using s' ks2 rm d by simp
  qed
qed

lemma commits_keys_Inr:
  assumes "store_inv (cache s) (keys s)"
    and "truthy_max (max_prop s)" and "parseInt_max (max_prop s) = Some N" and "1 \<le> N"
    and "int (length (keys s)) \<le> N"
    and "distinct (map fst steps)" and "set (map fst steps) \<inter> set (keys s) = {}"
    and "commits s steps = Inr s'"
  shows "keys s' = drop (length (keys s) + length steps - nat N) (keys s @ map fst steps)
         \<and> store_inv (cache s') (keys s')"
  using assms
proof (induction steps arbitrary: s)
  case Nil
  then show ?case by simp
next
  case (Cons x rest)
  obtain k v cur where x: "x = (k, v, cur)" by (cases x) auto
  let ?s1 = "s\<lparr>vnodeToCache := Some v, keyToCache := k, cur_vnode := cur\<rparr>"
  from Cons.prems(8) obtain s1 where c: "cacheVNode ?s1 = Inr s1"
    and r: "commits s1 rest = Inr s'"
    by (auto simp: x split: sum.splits)
  have fresh: "keyToCache ?s1 \<notin> set (keys ?s1)" using Cons.prems(7) x by auto
  from cacheVNode_step [of ?s1 v N s1] Cons.prems(1-5) fresh c
  have ks: "keys s1 = drop (length (keys s) + 1 - nat N) (keys s @ [k])"
    and inv: "store_inv (cache s1) (keys s1)"
    and mp: "max_prop s1 = max_prop s"
    by auto
  have len: "int (length (keys s1)) \<le> N" using ks Cons.prems(4,5) by auto
  have sub: "set (keys s1) \<subseteq> insert k (set (keys s))"
    using set_drop_subset [of "length (keys s) + 1 - nat N" "keys s @ [k]"] ks by auto
  have disj: "set (map fst rest) \<inter> set (keys s1) = {}"
    using sub Cons.prems(6,7) x by auto
  from Cons.IH [OF inv _ _ Cons.prems(4) len _ disj r] Cons.prems(2,3,6) mp
  have ks': "keys s' = drop (length (keys s1) + length rest - nat N) (keys s1 @ map fst rest)"
    and inv': "store_inv (cache s') (keys s')"
    by auto
  let ?d = "length (keys s) + 1 - nat N"
  have dl: "?d \<le> length (keys s @ [k])" by simp
  have "keys s' = drop (length (keys s1) + length rest - nat N)
      (drop ?d (keys s @ [k]) @ map fst rest)"
    using ks' by (simp only: ks)
  then have "keys s' = drop (length (keys s1) + length rest - nat N + ?d)
      ((keys s @ [k]) @ map fst rest)"
    by (simp only: drop_drop_append [OF dl])
  moreover have "length (keys s1) + length rest - nat N + ?d
      = length (keys s) + length (x # rest) - nat N"
    using ks Cons.prems(4,5) by (simp add: ks)
  ultimately have "keys s' = drop (length (keys s) + length (x # rest) - nat N)
      (keys s @ map fst (x # rest))"
    by (simp add: x)
  then show ?case using inv' by simp
qed

text \<open>
  C1. Under a capacity \<open>max\<close> that parses to \<open>N \<ge> 1\<close>, take any sequence of commits of
  distinct keys from the state \<open>created\<close> makes, and one more commit of a new key
  \<open>k\<close>. Whenever the last commit completes: before it, the recency order holds the last
  \<open>N\<close> keys committed, and these are exactly the live keys; the last commit appends
  \<open>k\<close>, and when the order already held \<open>N\<close> keys it drops the head of the order and
  only the head; the live keys are again exactly the keys of the order, and they are at most
  \<open>N\<close>. Every commit completes when each committed node holds its instance.
\<close>

theorem commit_lru:
  assumes "truthy_max (max_prop s0)" and "parseInt_max (max_prop s0) = Some N" and "1 \<le> N"
    and "distinct (map fst (steps @ [(k, v, cur)]))"
  shows "(\<forall>s'. commits (created s0) (steps @ [(k, v, cur)]) = Inr s' \<longrightarrow>
            (\<exists>s. commits (created s0) steps = Inr s
               \<and> cacheVNode (s\<lparr>vnodeToCache := Some v, keyToCache := k, cur_vnode := cur\<rparr>) = Inr s'
               \<and> keys s = drop (length steps - nat N) (map fst steps)
               \<and> keys s' = (if int (length (keys s)) = N then tl (keys s) @ [k] else keys s @ [k])
               \<and> set (live_keys (cache s)) = set (keys s)
               \<and> set (live_keys (cache s')) = set (keys s')
               \<and> int (length (live_keys (cache s'))) \<le> N))
         \<and> ((\<forall>x \<in> set (steps @ [(k, v, cur)]). vcomponentInstance (fst (snd x)) \<noteq> None) \<longrightarrow>
              (\<exists>s'. commits (created s0) (steps @ [(k, v, cur)]) = Inr s'))"
proof (intro conjI allI impI)
  let ?s0 = "created s0"
  have m: "truthy_max (max_prop ?s0)" "parseInt_max (max_prop ?s0) = Some N"
    using assms(1,2) by (simp_all add: created_def)
  have l0: "int (length (keys ?s0)) \<le> N" using assms(3) by (simp add: created_def)
  have k0: "keys ?s0 = []" by (simp add: created_def)
  have e0: "set (map fst xs) \<inter> set (keys ?s0) = {}" for xs :: "(string \<times> VNode \<times> VNode option) list"
    by (simp add: k0)
  {
    assume i: "\<forall>x \<in> set (steps @ [(k, v, cur)]). vcomponentInstance (fst (snd x)) \<noteq> None"
    from commits_keys [OF store_inv_created instances_present_created m assms(3) l0 assms(4) e0 i]
    show "\<exists>s'. commits ?s0 (steps @ [(k, v, cur)]) = Inr s'" by blast
  }
  fix s'
  assume s': "commits ?s0 (steps @ [(k, v, cur)]) = Inr s'"
  then obtain s where s: "commits ?s0 steps = Inr s"
    and c: "cacheVNode (s\<lparr>vnodeToCache := Some v, keyToCache := k, cur_vnode := cur\<rparr>) = Inr s'"
    by (auto simp: commits_append split: sum.splits)
  have d1: "distinct (map fst steps)" using assms(4) by simp
  note a = commits_keys_Inr [OF store_inv_created m assms(3) l0 d1 e0 s]
  have ks: "keys s = drop (length steps - nat N) (map fst steps)"
    using a [THEN conjunct1] by (simp add: k0)
  have inv: "store_inv (cache s) (keys s)" by (rule a [THEN conjunct2])
  note b = commits_keys_Inr [OF store_inv_created m assms(3) l0 assms(4) e0 s']
  have ks': "keys s' = drop (length (steps @ [(k, v, cur)]) - nat N)
        (map fst (steps @ [(k, v, cur)]))"
    using b [THEN conjunct1] by (simp add: k0)
  have inv': "store_inv (cache s') (keys s')" by (rule b [THEN conjunct2])
  have len: "int (length (keys s')) \<le> N" using ks' assms(3) by auto
  have step: "keys s' = (if int (length (keys s)) = N then tl (keys s) @ [k] else keys s @ [k])"
  proof (cases "int (length steps) < N")
    case True
    then have "length steps - nat N = 0" and "length (steps @ [(k, v, cur)]) - nat N = 0"
      by auto
    with True ks ks' show ?thesis by simp
  next
    case False
    then have ge: "nat N \<le> length steps" by auto
    have n: "int (length (keys s)) = N" using ks ge assms(3) by auto
    have n1: "Suc 0 - nat N = 0" using assms(3) by auto
    have "Suc (length steps) - nat N = Suc (length steps - nat N)" using ge by auto
    then have "keys s' = drop (Suc (length steps - nat N)) (map fst steps) @ [k]"
      using ks' n1 by simp
    then show ?thesis using n ks by (simp add: drop_Suc tl_drop)
  qed
  show "\<exists>s. commits ?s0 steps = Inr s
      \<and> cacheVNode (s\<lparr>vnodeToCache := Some v, keyToCache := k, cur_vnode := cur\<rparr>) = Inr s'
      \<and> keys s = drop (length steps - nat N) (map fst steps)
      \<and> keys s' = (if int (length (keys s)) = N then tl (keys s) @ [k] else keys s @ [k])
      \<and> set (live_keys (cache s)) = set (keys s)
      \<and> set (live_keys (cache s')) = set (keys s')
      \<and> int (length (live_keys (cache s'))) \<le> N"
    using s c ks step inv inv' len
    by (auto simp: store_inv_def store_inv_length [OF inv'])
qed

theorem commit_lru_witness:
  "\<exists>s'. commits (created ex_props)
          [(''A'', ex_vnode ''A'' ''div'' 1, None), (''B'', ex_vnode ''B'' ''p'' 2, None),
           (''C'', ex_vnode ''C'' ''span'' 3, None)] = Inr s'
        \<and> keys s' = [''B'', ''C''] \<and> set (live_keys (cache s')) = {''B'', ''C''}
        \<and> int (length (live_keys (cache s'))) \<le> 2"
proof -
  let ?steps = "[(''A'', ex_vnode ''A'' ''div'' 1, None :: VNode option),
                 (''B'', ex_vnode ''B'' ''p'' 2, None)]"
  let ?v = "ex_vnode ''C'' ''span'' 3"
  have t: "truthy_max (max_prop ex_props)" by (simp add: ex_props_def truthy_max_def)
  have p: "parseInt_max (max_prop ex_props) = Some 2"
    by (simp add: ex_props_def parseInt_max_def parseInt_def is_space_def dec_digit_def
        digits_value_def)
  have n: "(1::int) \<le> 2" by simp
  have d: "distinct (map fst (?steps @ [(''C'', ?v, None)]))" by simp
  have i: "\<forall>x \<in> set (?steps @ [(''C'', ?v, None)]). vcomponentInstance (fst (snd x)) \<noteq> None"
    by (simp add: ex_vnode_def)
  note cl = commit_lru [OF t p n d]
  from cl [THEN conjunct2] i obtain s' where
    c: "commits (created ex_props) (?steps @ [(''C'', ?v, None)]) = Inr s'"
    by blast
  with cl [THEN conjunct1] obtain s where
    ks: "keys s = drop (length ?steps - nat 2) (map fst ?steps)"
    and ks': "keys s' = (if int (length (keys s)) = 2 then tl (keys s) @ [''C'']
                         else keys s @ [''C''])"
    and l: "set (live_keys (cache s')) = set (keys s')"
    and b: "int (length (live_keys (cache s'))) \<le> 2"
    and c0: "commits (created ex_props) ?steps = Inr s"
    by blast
  from ks have "keys s = [''A'', ''B'']" by simp
  with ks' have "keys s' = [''B'', ''C'']" by simp
  with c l b show ?thesis by auto
qed

subsection \<open>The sweep after a change of filter\<close>

lemma pruneCache_step_eq:
  "pruneCache_step cur flt k (c, ks, ds) =
     (if swept c flt k then pruneCacheEntry c k ks cur ds else Inr (c, ks, ds))"
  by (auto simp: pruneCache_step_def swept_def truthy_str_def split: option.splits)

lemma swept_cache_set: "k \<noteq> k0 \<Longrightarrow> swept (cache_set c k0 v) flt k = swept c flt k"
  by (simp add: swept_def cache_get_set)

lemma destroys_of_cache_set:
  "k \<noteq> k0 \<Longrightarrow> destroys_of cur (cache_set c k0 v) flt k = destroys_of cur c flt k"
  by (simp add: destroys_of_def swept_cache_set cache_get_set split: option.splits)

lemma sweep_destroys_cache_set:
  "k0 \<notin> set rest \<Longrightarrow> sweep_destroys cur (cache_set c k0 v) flt rest = sweep_destroys cur c flt rest"
  unfolding sweep_destroys_def
proof (rule arg_cong [where f = concat], rule map_cong)
  fix k assume "k0 \<notin> set rest" and "k \<in> set rest"
  then have "k \<noteq> k0" by auto
  then show "destroys_of cur (cache_set c k0 v) flt k = destroys_of cur c flt k"
    by (rule destroys_of_cache_set)
qed simp

lemma swept_for_in: "swept c flt k \<Longrightarrow> k \<in> set (for_in_keys c)"
  by (auto simp: swept_def set_for_in_keys split: option.splits dest: cache_get_name)

lemma pruneCacheEntry_swept:
  assumes "distinct ks" and "swept c flt k"
    and "\<forall>e. cache_get c k = Some e \<longrightarrow> destroy_due cur e \<longrightarrow> componentInstance e \<noteq> None"
  shows "pruneCacheEntry c k ks cur ds =
           Inr (cache_set c k None, filter (\<lambda>x. x \<noteq> k) ks, ds @ destroys_of cur c flt k)"
  using assms
  by (auto simp: pruneCacheEntry_def swept_def destroys_of_def destroy_due_def remove_distinct
      split: option.splits)

text \<open>
  The loop of \<open>pruneCache\<close> over any list of distinct names: it evicts the swept keys
  among them and no other.
\<close>

lemma pruneCache_loop_result:
  assumes "distinct ks0" and "distinct ks"
    and "\<forall>k \<in> set ks0. \<forall>e. cache_get c k = Some e \<longrightarrow> swept c flt k \<longrightarrow> destroy_due cur e
           \<longrightarrow> componentInstance e \<noteq> None"
  shows "\<exists>c'. pruneCache_loop cur flt ks0 (c, ks, ds) =
                Inr (c', filter (\<lambda>k. \<not> (k \<in> set ks0 \<and> swept c flt k)) ks,
                     ds @ sweep_destroys cur c flt ks0)
              \<and> (\<forall>k. cache_get c' k = (if k \<in> set ks0 \<and> swept c flt k then None else cache_get c k))"
  using assms
proof (induction ks0 arbitrary: c ks ds)
  case Nil
  then show ?case by (simp add: sweep_destroys_def)
next
  case (Cons k0 rest)
  have k0: "k0 \<notin> set rest" and dr: "distinct rest" using Cons.prems(1) by auto
  show ?case
  proof (cases "swept c flt k0")
    case False
    have d0: "destroys_of cur c flt k0 = []"
      using False by (simp add: destroys_of_def split: option.splits)
    have pre: "\<forall>k \<in> set rest. \<forall>e. cache_get c k = Some e \<longrightarrow> swept c flt k \<longrightarrow> destroy_due cur e
           \<longrightarrow> componentInstance e \<noteq> None"
      using Cons.prems(3) by simp
    from Cons.IH [OF dr Cons.prems(2) pre, of ds] obtain c' where
      l: "pruneCache_loop cur flt rest (c, ks, ds) =
            Inr (c', filter (\<lambda>k. \<not> (k \<in> set rest \<and> swept c flt k)) ks,
                 ds @ sweep_destroys cur c flt rest)"
      and g: "\<forall>k. cache_get c' k = (if k \<in> set rest \<and> swept c flt k then None else cache_get c k)"
      by blast
    have f: "filter (\<lambda>k. \<not> (k \<in> set rest \<and> swept c flt k)) ks
           = filter (\<lambda>k. \<not> (k \<in> set (k0 # rest) \<and> swept c flt k)) ks"
      using False by (intro filter_cong) auto
    have "pruneCache_loop cur flt (k0 # rest) (c, ks, ds) =
            Inr (c', filter (\<lambda>k. \<not> (k \<in> set (k0 # rest) \<and> swept c flt k)) ks,
                 ds @ sweep_destroys cur c flt (k0 # rest))"
      using False l f d0 by (simp add: pruneCache_step_eq sweep_destroys_def)
    moreover have "\<forall>k. cache_get c' k
          = (if k \<in> set (k0 # rest) \<and> swept c flt k then None else cache_get c k)"
      using g False by auto
    ultimately show ?thesis by blast
  next
    case True
    let ?c1 = "cache_set c k0 None"
    let ?ks1 = "filter (\<lambda>x. x \<noteq> k0) ks"
    let ?ds1 = "ds @ destroys_of cur c flt k0"
    have p: "pruneCacheEntry c k0 ks cur ds = Inr (?c1, ?ks1, ?ds1)"
      using Cons.prems(2,3) True by (intro pruneCacheEntry_swept) auto
    have sw: "swept ?c1 flt k = swept c flt k" if "k \<in> set rest" for k
    proof -
      from that k0 have "k \<noteq> k0" by auto
      then show ?thesis by (rule swept_cache_set)
    qed
    have pre: "\<forall>k \<in> set rest. \<forall>e. cache_get ?c1 k = Some e \<longrightarrow> swept ?c1 flt k \<longrightarrow> destroy_due cur e
           \<longrightarrow> componentInstance e \<noteq> None"
      using Cons.prems(3) k0 sw by (auto simp: cache_get_set)
    have dk: "distinct ?ks1" using Cons.prems(2) by simp
    from Cons.IH [OF dr dk pre, of ?ds1] obtain c' where
      l: "pruneCache_loop cur flt rest (?c1, ?ks1, ?ds1) =
            Inr (c', filter (\<lambda>k. \<not> (k \<in> set rest \<and> swept ?c1 flt k)) ?ks1,
                 ?ds1 @ sweep_destroys cur ?c1 flt rest)"
      and g: "\<forall>k. cache_get c' k = (if k \<in> set rest \<and> swept ?c1 flt k then None else cache_get ?c1 k)"
      by blast
    have f: "filter (\<lambda>k. \<not> (k \<in> set rest \<and> swept ?c1 flt k)) ?ks1
           = filter (\<lambda>k. \<not> (k \<in> set (k0 # rest) \<and> swept c flt k)) ks"
      unfolding filter_filter using True sw by (intro filter_cong) auto
    have d: "?ds1 @ sweep_destroys cur ?c1 flt rest = ds @ sweep_destroys cur c flt (k0 # rest)"
      using k0 by (simp add: sweep_destroys_cache_set) (simp add: sweep_destroys_def)
    have "pruneCache_loop cur flt (k0 # rest) (c, ks, ds) =
            Inr (c', filter (\<lambda>k. \<not> (k \<in> set (k0 # rest) \<and> swept c flt k)) ks,
                 ds @ sweep_destroys cur c flt (k0 # rest))"
      using True p l f d by (simp add: pruneCache_step_eq)
    moreover have "\<forall>k. cache_get c' k
          = (if k \<in> set (k0 # rest) \<and> swept c flt k then None else cache_get c k)"
      using g True sw by (auto simp: cache_get_set)
    ultimately show ?thesis by blast
  qed
qed

text \<open>
  C6. A sweep by \<open>pruneCache\<close> with a predicate, from a state where the property names of
  the cache and the keys of the recency order are distinct and every entry the sweep is to
  destroy holds an instance: the sweep completes; a key holds no entry afterwards iff it
  held none before or held an entry whose name is present and fails the predicate, and
  every other key holds its entry unchanged; in particular an entry without name survives;
  the recency order loses exactly the swept keys; \<open>$destroy\<close> is called exactly on the
  instances of the swept entries whose tag differs from the tag of the node on display (on
  all swept entries when no node is on display), in the order the keys are visited.
\<close>

theorem pruneCache_spec:
  assumes "distinct (map fst (cache s))" and "distinct (keys s)"
    and "\<forall>k e. cache_get (cache s) k = Some e \<longrightarrow> swept (cache s) flt k
           \<longrightarrow> destroy_due (cur_vnode s) e \<longrightarrow> componentInstance e \<noteq> None"
  shows "\<exists>s'. pruneCache s flt = Inr s'
           \<and> (\<forall>k. cache_get (cache s') k
                  = (if swept (cache s) flt k then None else cache_get (cache s) k))
           \<and> (\<forall>k e. cache_get (cache s) k = Some e \<and> \<not> truthy_str (name e)
                  \<longrightarrow> cache_get (cache s') k = Some e)
           \<and> keys s' = filter (\<lambda>k. \<not> swept (cache s) flt k) (keys s)
           \<and> destroyed_log s'
               = destroyed_log s @ sweep_destroys (cur_vnode s) (cache s) flt (for_in_keys (cache s))"
proof -
  have pre: "\<forall>k \<in> set (for_in_keys (cache s)). \<forall>e. cache_get (cache s) k = Some e
      \<longrightarrow> swept (cache s) flt k \<longrightarrow> destroy_due (cur_vnode s) e \<longrightarrow> componentInstance e \<noteq> None"
    using assms(3) by blast
  from pruneCache_loop_result [OF distinct_for_in_keys [OF assms(1)] assms(2) pre,
      of "destroyed_log s"]
  obtain c' where
    l: "pruneCache_loop (cur_vnode s) flt (for_in_keys (cache s))
          (cache s, keys s, destroyed_log s) =
          Inr (c', filter (\<lambda>k. \<not> (k \<in> set (for_in_keys (cache s)) \<and> swept (cache s) flt k)) (keys s),
               destroyed_log s @ sweep_destroys (cur_vnode s) (cache s) flt (for_in_keys (cache s)))"
    and g: "\<forall>k. cache_get c' k
          = (if k \<in> set (for_in_keys (cache s)) \<and> swept (cache s) flt k then None
             else cache_get (cache s) k)"
    by blast
  have e: "\<And>k. (k \<in> set (for_in_keys (cache s)) \<and> swept (cache s) flt k) = swept (cache s) flt k"
    using swept_for_in by blast
  have n: "\<And>k e. cache_get (cache s) k = Some e \<Longrightarrow> \<not> truthy_str (name e)
      \<Longrightarrow> \<not> swept (cache s) flt k"
    by (simp add: swept_def)
  show ?thesis
    using l g n by (simp add: pruneCache_def e)
qed

theorem pruneCache_spec_witness:
  "\<exists>s'. pruneCache (ex_props\<lparr>cache := [(''k'', Some (ex_entry ''Foo'' ''div'' 1)),
                                       (''m'', Some (ex_entry ''Bar'' ''p'' 2)),
                                       (''n'', Some \<lparr>name = None, tag = Some ''span'',
                                                     componentInstance = Some 3\<rparr>)],
                             keys := [''k'', ''m'', ''n''],
                             cur_vnode := Some (ex_vnode ''Bar'' ''p'' 2)\<rparr>)
          (\<lambda>nm. \<not> matches (PString ''Foo,Bar'') nm) = Inr s'
        \<and> cache_get (cache s') ''k'' = None \<and> cache_get (cache s') ''m'' = None
        \<and> cache_get (cache s') ''n''
            = Some \<lparr>name = None, tag = Some ''span'', componentInstance = Some 3\<rparr>
        \<and> keys s' = [''n''] \<and> destroyed_log s' = [1]"
proof -
  let ?c = "[(''k'', Some (ex_entry ''Foo'' ''div'' 1)), (''m'', Some (ex_entry ''Bar'' ''p'' 2)),
             (''n'', Some \<lparr>name = None, tag = Some ''span'', componentInstance = Some 3\<rparr>)]"
  let ?s = "ex_props\<lparr>cache := ?c, keys := [''k'', ''m'', ''n''],
                     cur_vnode := Some (ex_vnode ''Bar'' ''p'' 2)\<rparr>"
  let ?flt = "\<lambda>nm. \<not> matches (PString ''Foo,Bar'') nm"
  have n: "distinct (map fst (cache ?s))" by simp
  have d: "distinct (keys ?s)" by simp
  have i: "\<forall>k e. cache_get (cache ?s) k = Some e \<longrightarrow> swept (cache ?s) ?flt k
      \<longrightarrow> destroy_due (cur_vnode ?s) e \<longrightarrow> componentInstance e \<noteq> None"
    by (auto simp: cache_get_def ex_entry_def split: if_splits)
  have sw: "swept ?c ?flt ''k''" "swept ?c ?flt ''m''" "\<not> swept ?c ?flt ''n''"
    by (simp_all add: swept_def cache_get_def ex_entry_def truthy_str_def)
  have fk: "for_in_keys ?c = [''k'', ''m'', ''n'']"
    by (simp add: for_in_keys_def isArrayIndex_def dec_digit_def)
  have ds: "sweep_destroys (Some (ex_vnode ''Bar'' ''p'' 2)) ?c ?flt [''k'', ''m'', ''n''] = [1]"
    using sw by (simp add: sweep_destroys_def destroys_of_def destroy_due_def cache_get_def
        ex_entry_def ex_vnode_def)
  from pruneCache_spec [OF n d i] obtain s' where
    p: "pruneCache ?s ?flt = Inr s'"
    and g: "\<forall>k. cache_get (cache s') k
          = (if swept (cache ?s) ?flt k then None else cache_get (cache ?s) k)"
    and ks: "keys s' = filter (\<lambda>k. \<not> swept (cache ?s) ?flt k) (keys ?s)"
    and dl: "destroyed_log s'
        = destroyed_log ?s @ sweep_destroys (cur_vnode ?s) (cache ?s) ?flt (for_in_keys (cache ?s))"
    by blast
  from g sw have "cache_get (cache s') ''k'' = None" "cache_get (cache s') ''m'' = None"
    "cache_get (cache s') ''n'' = cache_get ?c ''n''"
    by simp_all
  moreover from ks sw have "keys s' = [''n'']" by simp
  moreover from dl fk ds have "destroyed_log s' = [1]" by (simp add: ex_props_def)
  ultimately show ?thesis using p by (simp add: cache_get_def)
qed

subsection \<open>The invariant of the store along the operations\<close>

lemma pruneCache_loop_store_inv:
  "store_inv c ks \<Longrightarrow> pruneCache_loop cur flt ks0 (c, ks, ds) = Inr (c', ks', ds')
     \<Longrightarrow> store_inv c' ks'"
proof (induction ks0 arbitrary: c ks ds)
  case Nil
  then show ?case by simp
next
  case (Cons k0 rest)
  from Cons.prems(2) obtain c1 ks1 ds1 where
    st: "pruneCache_step cur flt k0 (c, ks, ds) = Inr (c1, ks1, ds1)"
    and l: "pruneCache_loop cur flt rest (c1, ks1, ds1) = Inr (c', ks', ds')"
    by (auto split: sum.splits)
  have "store_inv c1 ks1"
    using st Cons.prems(1)
    by (auto simp: pruneCache_step_eq split: if_splits dest: pruneCacheEntry_store_inv)
  then show ?case using l by (rule Cons.IH)
qed

lemma pruneCache_store_inv:
  assumes "store_inv (cache s) (keys s)" and "pruneCache s flt = Inr s'"
  shows "store_inv (cache s') (keys s')"
  using assms
  by (auto simp: pruneCache_def split: sum.splits dest: pruneCache_loop_store_inv)

lemma destroyed_loop_store_inv:
  "store_inv c ks \<Longrightarrow> destroyed_loop ks0 (c, ks, ds) = Inr (c', ks', ds') \<Longrightarrow> store_inv c' ks'"
proof (induction ks0 arbitrary: c ks ds)
  case Nil
  then show ?case by simp
next
  case (Cons k0 rest)
  from Cons.prems(2) obtain c1 ks1 ds1 where
    p: "pruneCacheEntry c k0 ks None ds = Inr (c1, ks1, ds1)"
    and l: "destroyed_loop rest (c1, ks1, ds1) = Inr (c', ks', ds')"
    by (auto split: sum.splits)
  have "store_inv c1 ks1" using Cons.prems(1) p by (rule pruneCacheEntry_store_inv)
  then show ?case using l by (rule Cons.IH)
qed

text \<open>After a teardown that completes, from a state of the invariant, the store is empty.\<close>

lemma destroyed_store_inv:
  assumes "store_inv (cache s) (keys s)" and "destroyed s = Inr s'"
  shows "store_inv (cache s') (keys s') \<and> keys s' = []"
proof -
  from assms have inv: "store_inv (cache s') (keys s')"
    by (auto simp: destroyed_def split: sum.splits dest: destroyed_loop_store_inv)
  have "set (live_keys (cache s')) = {}"
    using destroyed_cache [OF assms(2)] by (simp add: set_live_keys)
  with inv show ?thesis by (simp add: store_inv_def)
qed

lemma cacheVNode_store_inv:
  assumes "store_inv (cache s) (keys s)" and "cacheVNode s = Inr s'"
    and "vnodeToCache s \<noteq> None \<longrightarrow> cache_get (cache s) (keyToCache s) = None"
  shows "store_inv (cache s') (keys s')"
proof (cases "vnodeToCache s")
  case None
  with assms show ?thesis by (simp add: cacheVNode_def)
next
  case (Some v)
  have "keyToCache s \<notin> set (keys s)"
    using assms(1,3) Some by (auto simp: store_inv_def set_live_keys)
  then have inv1: "store_inv
      (cache_set (cache s) (keyToCache s)
         (Some \<lparr>name = local_getComponentName (componentOptions v), tag = vtag v,
                componentInstance = vcomponentInstance v\<rparr>))
      (keys s @ [keyToCache s])"
    using assms(1) by (intro store_inv_set)
  show ?thesis
    using assms(2) Some inv1
    by (auto simp: cacheVNode_def Let_def split: if_splits sum.splits
        dest: pruneCacheEntry_store_inv)
qed

subsection \<open>The scenarios of the specification\<close>

text \<open>With \<open>max = 2\<close>, inserting A, B and C evicts A.\<close>

lemma scenario_insert_three:
  "commits (created ex_props)
     [(''A'', ex_vnode ''A'' ''div'' 1, None), (''B'', ex_vnode ''B'' ''p'' 2, None),
      (''C'', ex_vnode ''C'' ''span'' 3, None)]
   = Inr (ex_props\<lparr>cache := [(''A'', None), (''B'', Some (ex_entry ''B'' ''p'' 2)),
                             (''C'', Some (ex_entry ''C'' ''span'' 3))],
                   keys := [''B'', ''C''], keyToCache := ''C'', destroyed_log := [1]\<rparr>)"
  by (simp add: created_def ex_props_def ex_vnode_def ex_entry_def cacheVNode_def over_max_def
      truthy_max_def parseInt_max_def parseInt_def is_space_def dec_digit_def digits_value_def
      pruneCacheEntry_def cache_get_def cache_set_def remove_def local_getComponentName_def
      truthy_str_def)

text \<open>Touching B and then inserting D evicts C.\<close>

lemma scenario_touch_then_insert:
  "render (ex_props\<lparr>cache := [(''7::p'', Some (ex_entry ''B'' ''p'' 2)),
                              (''7::span'', Some (ex_entry ''C'' ''span'' 3))],
                    keys := [''7::p'', ''7::span'']\<rparr>)
     None (Some (ex_vnode ''B'' ''p'' 9))
   = Inr (Some ((ex_vnode ''B'' ''p'' 9)\<lparr>vcomponentInstance := Some 2,
                                        data := Some \<lparr>keepAlive = True\<rparr>\<rparr>),
          ex_props\<lparr>cache := [(''7::p'', Some (ex_entry ''B'' ''p'' 2)),
                              (''7::span'', Some (ex_entry ''C'' ''span'' 3))],
                    keys := [''7::span'', ''7::p'']\<rparr>)
   \<and> cacheVNode (ex_props\<lparr>cache := [(''7::p'', Some (ex_entry ''B'' ''p'' 2)),
                                     (''7::span'', Some (ex_entry ''C'' ''span'' 3))],
                           keys := [''7::span'', ''7::p''],
                           vnodeToCache := Some (ex_vnode ''D'' ''div'' 4),
                           keyToCache := ''7::div''\<rparr>)
   = Inr (ex_props\<lparr>cache := [(''7::p'', Some (ex_entry ''B'' ''p'' 2)),
                             (''7::span'', None),
                             (''7::div'', Some (ex_entry ''D'' ''div'' 4))],
                   keys := [''7::p'', ''7::div''], keyToCache := ''7::div'',
                   destroyed_log := [3]\<rparr>)"
  by (simp add: render_def render_cached_def not_cached_def resolve_key_def string_of_nat_7
      ex_props_def ex_vnode_def ex_entry_def cacheVNode_def over_max_def
      truthy_max_def truthy_pattern_def parseInt_max_def parseInt_def is_space_def dec_digit_def
      digits_value_def pruneCacheEntry_def cache_get_def cache_set_def remove_def
      local_getComponentName_def truthy_str_def Let_def)

text \<open>
  An entry with tag \<open>div\<close> while a node with tag \<open>div\<close> is on display: a change of
  \<open>exclude\<close> that matches its name evicts the entry and does not destroy its instance.
\<close>

lemma scenario_exclude_same_tag:
  "watch_exclude (ex_props\<lparr>cache := [(''k'', Some (ex_entry ''Foo'' ''div'' 1))],
                           keys := [''k''],
                           cur_vnode := Some (ex_vnode ''Other'' ''div'' 5)\<rparr>)
     (PArray [''Foo''])
   = Inr (ex_props\<lparr>cache := [(''k'', None)], keys := [],
                   cur_vnode := Some (ex_vnode ''Other'' ''div'' 5)\<rparr>)"
  by (simp add: watch_exclude_def pruneCache_def pruneCache_step_def pruneCacheEntry_def
      ex_props_def ex_vnode_def ex_entry_def cache_get_def cache_set_def remove_def
      for_in_keys_def isArrayIndex_def dec_digit_def)

end
